theory Spec2Isabelle
  imports Main "HOL-Library.Word"
begin

section \<open>The chunked stack of blenlib (stack.c)\<close>

text \<open>
  The stack keeps its elements in fixed-size chunks that are linked through raw
  pointers.  The embedding keeps the pointers: chunks live in a store, a pointer is
  the index of a chunk in the store or null, and every dereference of a null or
  unallocated pointer, and every byte copy that leaves a chunk's buffer, is an
  error value instead of undefined behaviour.  An exception thrown by the allocation
  of a chunk is an error value too: it ends the call.  \<open>size_t\<close> is a 64-bit word,
  so the cursor wraps around exactly as in the source.
\<close>

subsection \<open>Data\<close>

type_synonym size_t = "64 word"
type_synonym byte = "8 word"
type_synonym addr = nat

text \<open>What the C++ leaves undefined, as values, and the exception
  \<open>std::length_error\<close> that leaves a call when a vector is asked for more than
  \<open>max_size()\<close> elements.\<close>

datatype error = NullDeref | InvalidPointer | OutOfBounds | LengthError

text \<open>\<open>class StackChunk\<close>: the link (the source's field \<open>next\<close>) and the buffer.\<close>

record StackChunk =
  next_chunk :: "addr option"
  data :: "byte list"

text \<open>\<open>std::vector<char>::max_size()\<close> where \<open>size_t\<close> has 64 bits: the largest
  \<open>ptrdiff_t\<close>, \<open>2^63 - 1\<close>.\<close>

definition max_size :: size_t where
  "max_size = 9223372036854775807"

text \<open>\<open>StackChunk(size_t chunk_size) : next(nullptr), data(chunk_size)\<close>: a
  vector of \<open>chunk_size\<close> zero bytes, or \<open>std::length_error\<close> when \<open>chunk_size\<close>
  is above \<open>max_size()\<close>.  Whether the machine has the memory for a smaller request
  (\<open>std::bad_alloc\<close> otherwise) is not decided here, the store being unbounded:
  what is proved of a push is proved of a push that returns.\<close>

definition new_StackChunk :: "size_t \<Rightarrow> error + StackChunk" where
  "new_StackChunk chunk_size =
     (if max_size < chunk_size then Inl LengthError
      else Inr \<lparr>next_chunk = None, data = replicate (unat chunk_size) 0\<rparr>)"

text \<open>\<open>class BLI_StackImpl\<close>: its six fields, together with the store \<open>heap\<close>
  that owns the chunk objects its pointers refer to.  \<open>new\<close> appends to the store,
  so the address of a fresh chunk is the length of the store before.\<close>

record BLI_StackImpl =
  heap :: "StackChunk list"
  chunk_curr :: "addr option"
  chunk_free :: "addr option"
  chunk_index :: size_t
  chunk_elem_max :: size_t
  elem_size :: size_t
  elem_num :: size_t

text \<open>A pointer into a chunk's buffer: the chunk and the byte offset.\<close>

type_synonym slot = "addr \<times> nat"

subsection \<open>Memory access\<close>

text \<open>\<open>p->next\<close> read and written.\<close>

definition get_next :: "StackChunk list \<Rightarrow> addr option \<Rightarrow> error + addr option" where
  "get_next h p =
     (case p of
        None \<Rightarrow> Inl NullDeref
      | Some a \<Rightarrow> if a < length h then Inr (next_chunk (h ! a)) else Inl InvalidPointer)"

definition set_next ::
  "StackChunk list \<Rightarrow> addr option \<Rightarrow> addr option \<Rightarrow> error + StackChunk list" where
  "set_next h p v =
     (case p of
        None \<Rightarrow> Inl NullDeref
      | Some a \<Rightarrow>
          if a < length h then Inr (h[a := (h ! a)\<lparr>next_chunk := v\<rparr>])
          else Inl InvalidPointer)"

text \<open>\<open>std::memcpy(dst, p, n)\<close> out of a chunk: the \<open>n\<close> bytes at the slot.\<close>

definition memcpy_from :: "StackChunk list \<Rightarrow> slot \<Rightarrow> nat \<Rightarrow> error + byte list" where
  "memcpy_from h p n =
     (case p of (a, off) \<Rightarrow>
        if \<not> a < length h then Inl InvalidPointer
        else if length (data (h ! a)) < off + n then Inl OutOfBounds
        else Inr (take n (drop off (data (h ! a)))))"

text \<open>\<open>std::memcpy(p, src, n)\<close> into a chunk: the first \<open>n\<close> bytes of \<open>src\<close>
  overwrite the slot.\<close>

definition memcpy_to ::
  "StackChunk list \<Rightarrow> slot \<Rightarrow> byte list \<Rightarrow> nat \<Rightarrow> error + StackChunk list" where
  "memcpy_to h p src n =
     (case p of (a, off) \<Rightarrow>
        if \<not> a < length h then Inl InvalidPointer
        else if length src < n \<or> length (data (h ! a)) < off + n then Inl OutOfBounds
        else Inr (h[a := (h ! a)\<lparr>data :=
               take off (data (h ! a)) @ take n src @ drop (off + n) (data (h ! a))\<rparr>]))"

subsection \<open>The class\<close>

text \<open>The constructor: no argument is checked; \<open>chunk_size - 1\<close> wraps.\<close>

definition BLI_StackImpl_ctor :: "size_t \<Rightarrow> size_t \<Rightarrow> BLI_StackImpl" where
  "BLI_StackImpl_ctor esize chunk_size =
     \<lparr>heap = [],
      chunk_curr = None,
      chunk_free = None,
      chunk_index = chunk_size - 1,
      chunk_elem_max = chunk_size,
      elem_size = esize,
      elem_num = 0\<rparr>"

text \<open>\<open>chunk_curr->data.data() + (elem_size * chunk_index)\<close>.\<close>

definition get_last_elem :: "BLI_StackImpl \<Rightarrow> error + slot" where
  "get_last_elem s =
     (case chunk_curr s of
        None \<Rightarrow> Inl NullDeref
      | Some a \<Rightarrow>
          if a < length (heap s) then Inr (a, unat (elem_size s * chunk_index s))
          else Inl InvalidPointer)"

definition allocate_new_chunk :: "BLI_StackImpl \<Rightarrow> error + BLI_StackImpl" where
  "allocate_new_chunk s =
     (case
        (if chunk_free s \<noteq> None then
           (case get_next (heap s) (chunk_free s) of
              Inl e \<Rightarrow> Inl e
            | Inr n \<Rightarrow> Inr (s\<lparr>chunk_curr := chunk_free s, chunk_free := n\<rparr>))
         else
           (case new_StackChunk (elem_size s * chunk_elem_max s) of
              Inl e \<Rightarrow> Inl e
            | Inr c \<Rightarrow> Inr (s\<lparr>heap := heap s @ [c], chunk_curr := Some (length (heap s))\<rparr>)))
      of
        Inl e \<Rightarrow> Inl e
      | Inr s1 \<Rightarrow>
          (case set_next (heap s1) (chunk_curr s1) None of
             Inl e \<Rightarrow> Inl e
           | Inr h \<Rightarrow> Inr (s1\<lparr>heap := h\<rparr>)))"

definition push_r :: "BLI_StackImpl \<Rightarrow> error + slot \<times> BLI_StackImpl" where
  "push_r s =
     (let s1 = s\<lparr>chunk_index := chunk_index s + 1\<rparr> in
      case
        (if chunk_index s1 = chunk_elem_max s1 then
           (case allocate_new_chunk s1 of
              Inl e \<Rightarrow> Inl e
            | Inr s2 \<Rightarrow> Inr (s2\<lparr>chunk_index := 0\<rparr>))
         else Inr s1)
      of
        Inl e \<Rightarrow> Inl e
      | Inr s3 \<Rightarrow>
          (let s4 = s3\<lparr>elem_num := elem_num s3 + 1\<rparr> in
           case get_last_elem s4 of
             Inl e \<Rightarrow> Inl e
           | Inr p \<Rightarrow> Inr (p, s4)))"

definition push :: "BLI_StackImpl \<Rightarrow> byte list \<Rightarrow> error + BLI_StackImpl" where
  "push s src =
     (case push_r s of
        Inl e \<Rightarrow> Inl e
      | Inr (dst, s1) \<Rightarrow>
          (case memcpy_to (heap s1) dst src (unat (elem_size s1)) of
             Inl e \<Rightarrow> Inl e
           | Inr h \<Rightarrow> Inr (s1\<lparr>heap := h\<rparr>)))"

definition peek :: "BLI_StackImpl \<Rightarrow> error + slot" where
  "peek s = get_last_elem s"

definition discard :: "BLI_StackImpl \<Rightarrow> error + BLI_StackImpl" where
  "discard s =
     (let s1 = s\<lparr>chunk_index := chunk_index s - 1\<rparr> in
      case
        (if chunk_index s1 = - 1 then
           (let old_chunk = chunk_curr s1 in
            case get_next (heap s1) (chunk_curr s1) of
              Inl e \<Rightarrow> Inl e
            | Inr n \<Rightarrow>
                (let s2 = s1\<lparr>chunk_curr := n\<rparr> in
                 case set_next (heap s2) old_chunk (chunk_free s2) of
                   Inl e \<Rightarrow> Inl e
                 | Inr h \<Rightarrow>
                     Inr (s2\<lparr>heap := h, chunk_free := old_chunk,
                             chunk_index := chunk_elem_max s2 - 1\<rparr>)))
         else Inr s1)
      of
        Inl e \<Rightarrow> Inl e
      | Inr s3 \<Rightarrow> Inr (s3\<lparr>elem_num := elem_num s3 - 1\<rparr>))"

text \<open>\<open>pop\<close> returns the bytes it copied to \<open>dst\<close>.\<close>

definition pop :: "BLI_StackImpl \<Rightarrow> error + byte list \<times> BLI_StackImpl" where
  "pop s =
     (case get_last_elem s of
        Inl e \<Rightarrow> Inl e
      | Inr p \<Rightarrow>
          (case memcpy_from (heap s) p (unat (elem_size s)) of
             Inl e \<Rightarrow> Inl e
           | Inr dst \<Rightarrow>
               (case discard s of
                  Inl e \<Rightarrow> Inl e
                | Inr s1 \<Rightarrow> Inr (dst, s1))))"

text \<open>The loop of \<open>clear\<close>: \<open>while (last_free->next) last_free = last_free->next\<close>.
  On a cyclic list it never ends, which is the value \<open>None\<close>.\<close>

partial_function (option) last_free_loop ::
  "StackChunk list \<Rightarrow> addr option \<Rightarrow> (error + addr option) option" where
  "last_free_loop h last_free =
     (case get_next h last_free of
        Inl e \<Rightarrow> Some (Inl e)
      | Inr None \<Rightarrow> Some (Inr last_free)
      | Inr (Some n) \<Rightarrow> last_free_loop h (Some n))"

definition clear :: "BLI_StackImpl \<Rightarrow> (error + BLI_StackImpl) option" where
  "clear s =
     (let s1 = s\<lparr>chunk_index := chunk_elem_max s - 1\<rparr> in
      case
        (if chunk_free s1 \<noteq> None then
           (if chunk_curr s1 \<noteq> None then
              (case last_free_loop (heap s1) (chunk_free s1) of
                 None \<Rightarrow> None
               | Some (Inl e) \<Rightarrow> Some (Inl e)
               | Some (Inr last_free) \<Rightarrow>
                   (case set_next (heap s1) last_free (chunk_curr s1) of
                      Inl e \<Rightarrow> Some (Inl e)
                    | Inr h \<Rightarrow> Some (Inr (s1\<lparr>heap := h\<rparr>))))
            else Some (Inr s1))
         else Some (Inr (s1\<lparr>chunk_free := chunk_curr s1\<rparr>)))
      of
        None \<Rightarrow> None
      | Some (Inl e) \<Rightarrow> Some (Inl e)
      | Some (Inr s2) \<Rightarrow> Some (Inr (s2\<lparr>chunk_curr := None, elem_num := 0\<rparr>)))"

definition count :: "BLI_StackImpl \<Rightarrow> size_t" where
  "count s = elem_num s"

definition is_empty :: "BLI_StackImpl \<Rightarrow> bool" where
  "is_empty s = (elem_num s = 0)"

subsection \<open>The C interface\<close>

text \<open>\<open>BLI_stack_new_ex\<close> ignores the description; \<open>BLI_stack_new\<close> takes chunks
  of \<open>1 << 16\<close> elements.\<close>

definition BLI_stack_new_ex :: "size_t \<Rightarrow> string \<Rightarrow> size_t \<Rightarrow> BLI_StackImpl" where
  "BLI_stack_new_ex esize description chunk_size = BLI_StackImpl_ctor esize chunk_size"

definition BLI_stack_new :: "size_t \<Rightarrow> string \<Rightarrow> BLI_StackImpl" where
  "BLI_stack_new esize description = BLI_stack_new_ex esize description (push_bit 16 1)"

declare last_free_loop.simps [code]

subsection \<open>Reading the chunk lists\<close>

text \<open>\<open>chain h p as\<close>: following \<open>next\<close> from the pointer \<open>p\<close> visits exactly the
  allocated chunks \<open>as\<close>, in this order, and then reaches null.\<close>

fun chain :: "StackChunk list \<Rightarrow> addr option \<Rightarrow> addr list \<Rightarrow> bool" where
  "chain h p [] = (p = None)"
| "chain h p (a # as) = (p = Some a \<and> a < length h \<and> chain h (next_chunk (h ! a)) as)"

text \<open>\<open>lists_of s cs fs\<close>: the active list of \<open>s\<close> is \<open>cs\<close>, its free list is \<open>fs\<close>,
  and no chunk is on both.\<close>

definition lists_of :: "BLI_StackImpl \<Rightarrow> addr list \<Rightarrow> addr list \<Rightarrow> bool" where
  "lists_of s cs fs =
     (chain (heap s) (chunk_curr s) cs \<and> chain (heap s) (chunk_free s) fs \<and>
      set cs \<inter> set fs = {})"

subsection \<open>Composite operations\<close>

text \<open>\<open>clear(); clear();\<close>\<close>

definition clear_twice :: "BLI_StackImpl \<Rightarrow> (error + BLI_StackImpl) option" where
  "clear_twice s =
     (case clear s of
        None \<Rightarrow> None
      | Some (Inl e) \<Rightarrow> Some (Inl e)
      | Some (Inr s1) \<Rightarrow> clear s1)"

text \<open>Copying \<open>elem_size\<close> bytes from \<open>peek()\<close> to \<open>dst\<close>, then \<open>discard()\<close>.\<close>

definition peek_copy_discard :: "BLI_StackImpl \<Rightarrow> error + byte list \<times> BLI_StackImpl" where
  "peek_copy_discard s =
     (case peek s of
        Inl e \<Rightarrow> Inl e
      | Inr p \<Rightarrow>
          (case memcpy_from (heap s) p (unat (elem_size s)) of
             Inl e \<Rightarrow> Inl e
           | Inr dst \<Rightarrow>
               (case discard s of
                  Inl e \<Rightarrow> Inl e
                | Inr s1 \<Rightarrow> Inr (dst, s1))))"

subsection \<open>A driver for sequences of calls\<close>

text \<open>A caller's script.  \<open>Pop\<close> emits the bytes it copied out; \<open>Peek\<close> emits the
  \<open>elem_size\<close> bytes read through the handle it got.  The run stops at the first
  step that is undefined or throws, and is \<open>None\<close> when a step never returns.\<close>

datatype op = Push "byte list" | Pop | Peek | Discard | Clear

fun step :: "BLI_StackImpl \<Rightarrow> op \<Rightarrow> (error + byte list list \<times> BLI_StackImpl) option" where
  "step s (Push src) =
     Some (case push s src of Inl e \<Rightarrow> Inl e | Inr s1 \<Rightarrow> Inr ([], s1))"
| "step s Pop =
     Some (case pop s of Inl e \<Rightarrow> Inl e | Inr (dst, s1) \<Rightarrow> Inr ([dst], s1))"
| "step s Peek =
     Some (case peek s of
             Inl e \<Rightarrow> Inl e
           | Inr p \<Rightarrow>
               (case memcpy_from (heap s) p (unat (elem_size s)) of
                  Inl e \<Rightarrow> Inl e
                | Inr bs \<Rightarrow> Inr ([bs], s)))"
| "step s Discard =
     Some (case discard s of Inl e \<Rightarrow> Inl e | Inr s1 \<Rightarrow> Inr ([], s1))"
| "step s Clear =
     (case clear s of
        None \<Rightarrow> None
      | Some (Inl e) \<Rightarrow> Some (Inl e)
      | Some (Inr s1) \<Rightarrow> Some (Inr ([], s1)))"

fun run :: "BLI_StackImpl \<Rightarrow> op list \<Rightarrow> (error + byte list list \<times> BLI_StackImpl) option" where
  "run s [] = Some (Inr ([], s))"
| "run s (x # xs) =
     (case step s x of
        None \<Rightarrow> None
      | Some (Inl e) \<Rightarrow> Some (Inl e)
      | Some (Inr (out, s1)) \<Rightarrow>
          (case run s1 xs of
             None \<Rightarrow> None
           | Some (Inl e) \<Rightarrow> Some (Inl e)
           | Some (Inr (outs, s2)) \<Rightarrow> Some (Inr (out @ outs, s2))))"

text \<open>The state a run ends in and what it emitted, when it ran to the end.\<close>

definition final_state ::
  "(error + byte list list \<times> BLI_StackImpl) option \<Rightarrow> BLI_StackImpl option" where
  "final_state r = (case r of Some (Inr (outs, s)) \<Rightarrow> Some s | _ \<Rightarrow> None)"

definition outputs ::
  "(error + byte list list \<times> BLI_StackImpl) option \<Rightarrow> byte list list option" where
  "outputs r = (case r of Some (Inr (outs, s)) \<Rightarrow> Some outs | _ \<Rightarrow> None)"

subsection \<open>Example states\<close>

text \<open>A stack of 4-byte elements in chunks of 4 with one active chunk (chunk 0, holding
  one element) and two chunks on the free list (chunk 1, then chunk 2).\<close>

definition linked_example :: BLI_StackImpl where
  "linked_example =
     \<lparr>heap = [\<lparr>next_chunk = None, data = [9, 0, 0, 0, 0, 0, 0, 0, 0, 0, 0, 0, 0, 0, 0, 0]\<rparr>,
              \<lparr>next_chunk = Some 2, data = replicate 16 0\<rparr>,
              \<lparr>next_chunk = None, data = replicate 16 0\<rparr>],
      chunk_curr = Some 0,
      chunk_free = Some 1,
      chunk_index = 0,
      chunk_elem_max = 4,
      elem_size = 4,
      elem_num = 1\<rparr>"

text \<open>The stack of 4-byte elements in chunks of 4 after one push and one discard:
  no active chunk, chunk 0 on the free list, the cursor back at the sentinel.\<close>

definition freed_example :: BLI_StackImpl where
  "freed_example =
     \<lparr>heap = [\<lparr>next_chunk = None, data = [1, 0, 0, 0, 0, 0, 0, 0, 0, 0, 0, 0, 0, 0, 0, 0]\<rparr>],
      chunk_curr = None,
      chunk_free = Some 0,
      chunk_index = 3,
      chunk_elem_max = 4,
      elem_size = 4,
      elem_num = 0\<rparr>"

text \<open>The same stack after \<open>push_r\<close> on the newly constructed one: a fresh chunk of 16
  zero bytes is current.\<close>

definition fresh_example :: BLI_StackImpl where
  "fresh_example =
     \<lparr>heap = [\<lparr>next_chunk = None, data = [0, 0, 0, 0, 0, 0, 0, 0, 0, 0, 0, 0, 0, 0, 0, 0]\<rparr>],
      chunk_curr = Some 0,
      chunk_free = None,
      chunk_index = 0,
      chunk_elem_max = 4,
      elem_size = 4,
      elem_num = 1\<rparr>"

section \<open>Properties of the chunk lists\<close>

lemma chain_unique: "chain h p as \<Longrightarrow> chain h p bs \<Longrightarrow> as = bs"
proof (induction as arbitrary: p bs)
  case Nil
  then show ?case by (cases bs) auto
next
  case (Cons a as)
  then show ?case by (cases bs) auto
qed

lemma chain_suffix: "chain h p (as @ b # bs) \<Longrightarrow> chain h (Some b) (b # bs)"
  by (induction as arbitrary: p) auto

lemma chain_distinct: "chain h p as \<Longrightarrow> distinct as"
proof (induction as arbitrary: p)
  case Nil
  then show ?case by simp
next
  case (Cons a as)
  have "a \<notin> set as"
  proof
    assume "a \<in> set as"
    then obtain xs ys where "as = xs @ a # ys" by (auto simp: in_set_conv_decomp)
    with Cons.prems have "chain h (Some a) (a # ys)"
      using chain_suffix [of h "next_chunk (h ! a)" xs a ys] by simp
    moreover from Cons.prems have "chain h (Some a) (a # as)" by simp
    ultimately have "a # ys = a # as" by (rule chain_unique)
    with \<open>as = xs @ a # ys\<close> show False by simp
  qed
  with Cons show ?case by auto
qed

lemma chain_update_other:
  "chain h p as \<Longrightarrow> a \<notin> set as \<Longrightarrow> chain (h[a := c]) p as"
  by (induction as arbitrary: p) auto

lemma next_chunk_update_data:
  "b < length h \<Longrightarrow> next_chunk (h[a := (h ! a)\<lparr>data := d\<rparr>] ! b) = next_chunk (h ! b)"
  by (cases "a = b") simp_all

lemma chain_update_data:
  "chain (h[a := (h ! a)\<lparr>data := d\<rparr>]) p as = chain h p as"
proof (induction as arbitrary: p)
  case Nil
  show ?case by simp
next
  case (Cons b as)
  show ?case
  proof (cases "b < length h")
    case True
    then show ?thesis using Cons.IH by (simp add: next_chunk_update_data)
  next
    case False
    then show ?thesis by simp
  qed
qed

lemma chain_grow: "chain h p as \<Longrightarrow> chain (h @ xs) p as"
  by (induction as arbitrary: p) (auto simp: nth_append)

lemma chain_valid: "chain h p as \<Longrightarrow> a \<in> set as \<Longrightarrow> a < length h"
  by (induction as arbitrary: p) auto

lemma last_free_loop_chain:
  "chain h (Some a) (a # as) \<Longrightarrow> last_free_loop h (Some a) = Some (Inr (Some (last (a # as))))"
proof (induction as arbitrary: a)
  case Nil
  then show ?case by (subst last_free_loop.simps) (simp add: get_next_def)
next
  case (Cons b as)
  then show ?case by (subst last_free_loop.simps) (simp add: get_next_def)
qed

lemma chain_link:
  "chain h p fs \<Longrightarrow> fs \<noteq> [] \<Longrightarrow> chain h q cs \<Longrightarrow> set fs \<inter> set cs = {} \<Longrightarrow>
   chain (h[last fs := (h ! last fs)\<lparr>next_chunk := q\<rparr>]) p (fs @ cs)"
proof (induction fs arbitrary: p)
  case Nil
  then show ?case by simp
next
  case (Cons a fs)
  from Cons.prems(1) have d: "distinct (a # fs)" by (rule chain_distinct)
  show ?case
  proof (cases "fs = []")
    case True
    with Cons.prems show ?thesis
      by (auto intro: chain_update_other)
  next
    case False
    with d have "last fs \<noteq> a" by auto
    with Cons False show ?thesis by auto
  qed
qed

section \<open>The operations, step by step\<close>

lemma discard_no_underflow:
  "chunk_index s \<noteq> 0 \<Longrightarrow>
   discard s = Inr (s\<lparr>chunk_index := chunk_index s - 1, elem_num := elem_num s - 1\<rparr>)"
  by (simp add: discard_def Let_def)

lemma discard_underflow:
  "chunk_index s = 0 \<Longrightarrow> chunk_curr s = Some a \<Longrightarrow> a < length (heap s) \<Longrightarrow>
   discard s =
     Inr (s\<lparr>chunk_index := chunk_elem_max s - 1,
            chunk_curr := next_chunk (heap s ! a),
            heap := (heap s)[a := (heap s ! a)\<lparr>next_chunk := chunk_free s\<rparr>],
            chunk_free := Some a,
            elem_num := elem_num s - 1\<rparr>)"
  by (simp add: discard_def Let_def get_next_def set_next_def)

lemma clear_no_free:
  "chunk_free s = None \<Longrightarrow>
   clear s =
     Some (Inr (s\<lparr>chunk_index := chunk_elem_max s - 1, chunk_free := chunk_curr s,
                  chunk_curr := None, elem_num := 0\<rparr>))"
  by (simp add: clear_def Let_def)

lemma clear_no_curr:
  "chunk_curr s = None \<Longrightarrow>
   clear s = Some (Inr (s\<lparr>chunk_index := chunk_elem_max s - 1, elem_num := 0\<rparr>))"
  by (cases "chunk_free s") (simp_all add: clear_def Let_def)

lemma clear_link:
  assumes "chain (heap s) (chunk_free s) (f # fs)" and "chunk_curr s = Some c"
  shows "clear s =
     Some (Inr (s\<lparr>chunk_index := chunk_elem_max s - 1,
                  heap := (heap s)[last (f # fs) :=
                            (heap s ! last (f # fs))\<lparr>next_chunk := chunk_curr s\<rparr>],
                  chunk_curr := None, elem_num := 0\<rparr>))"
proof -
  from assms(1) have f: "chunk_free s = Some f" by simp
  with assms(1) have "last_free_loop (heap s) (chunk_free s) = Some (Inr (Some (last (f # fs))))"
    using last_free_loop_chain [of "heap s" f fs] by simp
  moreover have "last (f # fs) < length (heap s)"
    using assms(1) chain_valid [of "heap s" "chunk_free s" "f # fs" "last (f # fs)"] by simp
  ultimately show ?thesis
    using f assms(2) by (simp add: clear_def Let_def set_next_def)
qed


lemma map_data_set_next: "map data (h[a := (h ! a)\<lparr>next_chunk := q\<rparr>]) = map data h"
proof (cases "a < length h")
  case True
  then show ?thesis by (simp add: map_update list_update_same_conv)
next
  case False
  then have "length h \<le> a" by simp
  then have "h[a := (h ! a)\<lparr>next_chunk := q\<rparr>] = h" by (rule list_update_beyond)
  then show ?thesis by simp
qed

lemma clear_returns:
  assumes "lists_of s cs fs"
  shows "\<exists>s'. clear s = Some (Inr s') \<and> lists_of s' [] (fs @ cs) \<and>
           chunk_index s' = chunk_elem_max s - 1 \<and> elem_num s' = 0 \<and>
           chunk_elem_max s' = chunk_elem_max s \<and> elem_size s' = elem_size s \<and>
           map data (heap s') = map data (heap s)"
proof (cases fs)
  case Nil
  with assms have "chunk_free s = None" by (simp add: lists_of_def)
  with assms Nil show ?thesis by (simp add: clear_no_free lists_of_def)
next
  case (Cons f fs')
  show ?thesis
  proof (cases cs)
    case Nil
    with assms have "chunk_curr s = None" by (simp add: lists_of_def)
    with assms Nil show ?thesis by (simp add: clear_no_curr lists_of_def)
  next
    case (Cons c cs')
    from assms have fr: "chain (heap s) (chunk_free s) fs"
      and cu: "chain (heap s) (chunk_curr s) cs"
      and dj: "set fs \<inter> set cs = {}"
      by (auto simp: lists_of_def)
    from cu Cons have c: "chunk_curr s = Some c" by simp
    from fr \<open>fs = f # fs'\<close> have "chain (heap s) (chunk_free s) (f # fs')" by simp
    from clear_link [OF this c]
    have cl: "clear s =
      Some (Inr (s\<lparr>chunk_index := chunk_elem_max s - 1,
                  heap := (heap s)[last fs := (heap s ! last fs)\<lparr>next_chunk := chunk_curr s\<rparr>],
                  chunk_curr := None, elem_num := 0\<rparr>))"
      using \<open>fs = f # fs'\<close> by simp
    from \<open>fs = f # fs'\<close> have ne: "fs \<noteq> []" by simp
    have "chain ((heap s)[last fs := (heap s ! last fs)\<lparr>next_chunk := chunk_curr s\<rparr>])
            (chunk_free s) (fs @ cs)"
      by (rule chain_link [OF fr ne cu dj])
    with cl show ?thesis by (simp add: lists_of_def map_data_set_next)
  qed
qed

lemma clear_twice_eq: "clear_twice s = clear s"
proof (cases "clear s")
  case None
  then show ?thesis by (simp add: clear_twice_def)
next
  case (Some r)
  show ?thesis
  proof (cases r)
    case (Inl e)
    with Some show ?thesis by (simp add: clear_twice_def)
  next
    case (Inr s1)
    with Some have c: "clear s = Some (Inr s1)" by simp
    then have "chunk_curr s1 = None \<and> elem_num s1 = 0 \<and> chunk_index s1 = chunk_elem_max s1 - 1"
      by (auto simp: clear_def Let_def split: if_splits option.splits sum.splits)
    then have "clear s1 = Some (Inr s1)" by (simp add: clear_no_curr)
    with c show ?thesis by (simp add: clear_twice_def)
  qed
qed

lemma allocate_fresh:
  "chunk_free s = None \<Longrightarrow> elem_size s * chunk_elem_max s \<le> max_size \<Longrightarrow>
   allocate_new_chunk s =
     Inr (s\<lparr>heap := heap s @
              [\<lparr>next_chunk = None,
                data = replicate (unat (elem_size s * chunk_elem_max s)) 0\<rparr>],
            chunk_curr := Some (length (heap s))\<rparr>)"
  by (simp add: allocate_new_chunk_def set_next_def new_StackChunk_def)

lemma allocate_fresh_fails:
  "chunk_free s = None \<Longrightarrow> max_size < elem_size s * chunk_elem_max s \<Longrightarrow>
   allocate_new_chunk s = Inl LengthError"
  by (simp add: allocate_new_chunk_def new_StackChunk_def)

lemma allocate_recycled:
  "chunk_free s = Some f \<Longrightarrow> f < length (heap s) \<Longrightarrow>
   allocate_new_chunk s =
     Inr (s\<lparr>heap := (heap s)[f := (heap s ! f)\<lparr>next_chunk := None\<rparr>],
            chunk_curr := Some f,
            chunk_free := next_chunk (heap s ! f)\<rparr>)"
  by (simp add: allocate_new_chunk_def set_next_def get_next_def)

lemma push_r_no_alloc:
  "chunk_index s + 1 \<noteq> chunk_elem_max s \<Longrightarrow>
   push_r s =
     (case get_last_elem (s\<lparr>chunk_index := chunk_index s + 1, elem_num := elem_num s + 1\<rparr>) of
        Inl e \<Rightarrow> Inl e
      | Inr p \<Rightarrow> Inr (p, s\<lparr>chunk_index := chunk_index s + 1, elem_num := elem_num s + 1\<rparr>))"
  by (simp add: push_r_def Let_def)

lemma push_r_fresh_fails:
  "chunk_index s + 1 = chunk_elem_max s \<Longrightarrow> chunk_free s = None \<Longrightarrow>
   max_size < elem_size s * chunk_elem_max s \<Longrightarrow> push_r s = Inl LengthError"
  by (simp add: push_r_def Let_def allocate_fresh_fails)

lemma push_r_fresh:
  "chunk_index s + 1 = chunk_elem_max s \<Longrightarrow> chunk_free s = None \<Longrightarrow>
   elem_size s * chunk_elem_max s \<le> max_size \<Longrightarrow>
   push_r s =
     Inr ((length (heap s), 0),
          s\<lparr>heap := heap s @
              [\<lparr>next_chunk = None,
                data = replicate (unat (elem_size s * chunk_elem_max s)) 0\<rparr>],
            chunk_curr := Some (length (heap s)),
            chunk_index := 0,
            elem_num := elem_num s + 1\<rparr>)"
  by (simp add: push_r_def Let_def allocate_fresh get_last_elem_def)

lemma push_r_recycled:
  "chunk_index s + 1 = chunk_elem_max s \<Longrightarrow> chunk_free s = Some f \<Longrightarrow>
   f < length (heap s) \<Longrightarrow>
   push_r s =
     Inr ((f, 0),
          s\<lparr>heap := (heap s)[f := (heap s ! f)\<lparr>next_chunk := None\<rparr>],
            chunk_curr := Some f,
            chunk_free := next_chunk (heap s ! f),
            chunk_index := 0,
            elem_num := elem_num s + 1\<rparr>)"
  by (simp add: push_r_def Let_def allocate_recycled get_last_elem_def)

lemma push_structure:
  assumes "push s src = Inr s''"
  shows "\<exists>p s'. push_r s = Inr (p, s') \<and> chunk_curr s'' = chunk_curr s' \<and>
           chunk_free s'' = chunk_free s' \<and> length (heap s'') = length (heap s') \<and>
           map next_chunk (heap s'') = map next_chunk (heap s') \<and>
           chunk_index s'' = chunk_index s' \<and> elem_num s'' = elem_num s' \<and>
           chunk_elem_max s'' = chunk_elem_max s' \<and> elem_size s'' = elem_size s'"
proof -
  from assms obtain p s' where pr: "push_r s = Inr (p, s')"
    by (auto simp: push_def split: sum.splits)
  with assms obtain h where m: "memcpy_to (heap s') p src (unat (elem_size s')) = Inr h"
    and s'': "s'' = s'\<lparr>heap := h\<rparr>"
    by (auto simp: push_def split: sum.splits)
  obtain a off where p: "p = (a, off)" by (cases p)
  from m p have "map next_chunk h = map next_chunk (heap s')"
    by (auto simp: memcpy_to_def map_update list_update_same_conv split: if_splits)
  then have "length h = length (heap s') \<and> map next_chunk h = map next_chunk (heap s')"
    using map_eq_imp_length_eq by blast
  with pr s'' show ?thesis by simp
qed

lemma chain_cong_next:
  "map next_chunk h' = map next_chunk h \<Longrightarrow> chain h' p as = chain h p as"
proof (induction as arbitrary: p)
  case Nil
  show ?case by simp
next
  case (Cons a as)
  from Cons.prems have l: "length h' = length h" by (rule map_eq_imp_length_eq)
  show ?case
  proof (cases "a < length h")
    case True
    with l Cons.prems have "next_chunk (h' ! a) = next_chunk (h ! a)"
      by (metis nth_map)
    with Cons l show ?thesis by simp
  next
    case False
    with l show ?thesis by simp
  qed
qed

lemma unat_pred: "(w::size_t) \<noteq> 0 \<Longrightarrow> unat (w - 1) + 1 = unat w"
  by (simp add: unat_minus_one unat_gt_0)

lemma lists_of_head:
  "lists_of s (a # cs) fs \<Longrightarrow>
   chunk_curr s = Some a \<and> a < length (heap s) \<and> a \<notin> set cs \<and> a \<notin> set fs \<and>
   chain (heap s) (next_chunk (heap s ! a)) cs \<and> chain (heap s) (chunk_free s) fs \<and>
   set cs \<inter> set fs = {}"
  using chain_distinct [of "heap s" "chunk_curr s" "a # cs"]
  by (auto simp: lists_of_def)

text \<open>
  \<open>discard\<close> on a stack whose count is not 0 and whose active list has a head
  chunk \<open>a\<close>: the call is defined and the count goes down by exactly 1.  When the
  cursor is 0 the decrement wraps: the head chunk leaves the active list, which
  becomes its tail \<open>cs\<close> (\<open>chunk_curr\<close> is the head's old \<open>next\<close>, null when \<open>cs\<close> is
  empty), the chunk becomes the head of the free list with the old free list behind
  it, and the cursor is \<open>chunk_elem_max - 1\<close>.  Otherwise the cursor goes down by 1
  and no pointer changes.  No buffer changes.
\<close>

lemma discard_step:
  assumes "\<not> is_empty s" and "lists_of s (a # cs) fs"
  shows "\<exists>s'. discard s = Inr s' \<and>
           unat (count s') + 1 = unat (count s) \<and>
           chunk_elem_max s' = chunk_elem_max s \<and> elem_size s' = elem_size s \<and>
           map data (heap s') = map data (heap s) \<and>
           (if chunk_index s = 0
            then chunk_curr s' = next_chunk (heap s ! a) \<and>
                 chunk_free s' = Some a \<and>
                 next_chunk (heap s' ! a) = chunk_free s \<and>
                 lists_of s' cs (a # fs) \<and>
                 chunk_index s' = chunk_elem_max s - 1
            else unat (chunk_index s') + 1 = unat (chunk_index s) \<and>
                 heap s' = heap s \<and> chunk_curr s' = chunk_curr s \<and>
                 chunk_free s' = chunk_free s)"
proof -
  from assms(1) have "elem_num s \<noteq> 0" by (simp add: is_empty_def)
  then have n: "unat (elem_num s - 1) + 1 = unat (elem_num s)" by (rule unat_pred)
  note h = lists_of_head [OF assms(2)]
  show ?thesis
  proof (cases "chunk_index s = 0")
    case True
    let ?h = "(heap s)[a := (heap s ! a)\<lparr>next_chunk := chunk_free s\<rparr>]"
    from h have c1: "chain ?h (next_chunk (heap s ! a)) cs"
      by (simp add: chain_update_other)
    from h have c2: "chain ?h (chunk_free s) fs"
      by (simp add: chain_update_other)
    from True h have "discard s =
      Inr (s\<lparr>chunk_index := chunk_elem_max s - 1,
             chunk_curr := next_chunk (heap s ! a),
             heap := ?h,
             chunk_free := Some a,
             elem_num := elem_num s - 1\<rparr>)"
      by (simp add: discard_underflow)
    with True n h c1 c2 show ?thesis
      by (simp add: count_def lists_of_def map_data_set_next)
  next
    case False
    then have "unat (chunk_index s - 1) + 1 = unat (chunk_index s)"
      by (rule unat_pred)
    with False n show ?thesis
      by (simp add: discard_no_underflow count_def)
  qed
qed


lemma discard_step_example:
  "\<not> is_empty linked_example \<and> lists_of linked_example [0] [1, 2] \<and>
   (\<exists>s'. discard linked_example = Inr s' \<and> count s' = 0 \<and>
      chunk_curr s' = None \<and> chunk_free s' = Some 0 \<and> lists_of s' [] [0, 1, 2] \<and>
      chunk_index s' = 3) \<and>
   \<not> is_empty (linked_example\<lparr>chunk_index := 2, elem_num := 3\<rparr>) \<and>
   lists_of (linked_example\<lparr>chunk_index := 2, elem_num := 3\<rparr>) [0] [1, 2] \<and>
   (\<exists>s'. discard (linked_example\<lparr>chunk_index := 2, elem_num := 3\<rparr>) = Inr s' \<and>
      count s' = 2 \<and> chunk_index s' = 1 \<and> chunk_curr s' = Some 0 \<and> chunk_free s' = Some 1)"
proof -
  let ?t = "linked_example\<lparr>chunk_index := 2, elem_num := 3\<rparr>"
  have a: "\<not> is_empty linked_example" "lists_of linked_example [0] [1, 2]"
    by (simp_all add: is_empty_def lists_of_def linked_example_def)
  have b: "\<not> is_empty ?t" "lists_of ?t [0] [1, 2]"
    by (simp_all add: is_empty_def lists_of_def linked_example_def)
  from discard_step [OF a] obtain s' where s':
    "discard linked_example = Inr s'" "unat (count s') + 1 = unat (count linked_example)"
    "chunk_curr s' = next_chunk (heap linked_example ! 0)" "chunk_free s' = Some 0"
    "lists_of s' [] [0, 1, 2]" "chunk_index s' = chunk_elem_max linked_example - 1"
    by (auto simp: linked_example_def)
  from s'(2) have "unat (count s') = 0" by (simp add: count_def linked_example_def)
  then have c0: "count s' = 0" by (simp add: unat_eq_zero)
  from discard_step [OF b] obtain t' where t':
    "discard ?t = Inr t'" "unat (count t') + 1 = unat (count ?t)"
    "unat (chunk_index t') + 1 = unat (chunk_index ?t)"
    "chunk_curr t' = chunk_curr ?t" "chunk_free t' = chunk_free ?t"
    by (auto simp: linked_example_def)
  from t'(2) have "unat (count t') = unat (2 :: size_t)" by (simp add: count_def)
  then have c2: "count t' = 2" by (simp only: word_unat_eq_iff)
  from t'(3) have "unat (chunk_index t') = unat (1 :: size_t)" by simp
  then have i1: "chunk_index t' = 1" by (simp only: word_unat_eq_iff)
  from s' c0 have "\<exists>s'. discard linked_example = Inr s' \<and> count s' = 0 \<and>
      chunk_curr s' = None \<and> chunk_free s' = Some 0 \<and> lists_of s' [] [0, 1, 2] \<and>
      chunk_index s' = 3"
    by (simp add: linked_example_def)
  moreover from t' c2 i1 have "\<exists>s'. discard ?t = Inr s' \<and>
      count s' = 2 \<and> chunk_index s' = 1 \<and> chunk_curr s' = Some 0 \<and> chunk_free s' = Some 1"
    by (simp add: linked_example_def)
  ultimately show ?thesis using a b by blast
qed

section \<open>Every run keeps the chunk lists well formed\<close>

text \<open>
  Whatever a caller does with a stack it constructed, as long as no call is
  undefined, both chunk lists stay null-terminated and disjoint: the hypothesis
  \<open>lists_of\<close> of the theorems below holds in every state the code produces.
\<close>

lemma lists_of_cong:
  assumes "map next_chunk (heap s') = map next_chunk (heap s)"
    and "chunk_curr s' = chunk_curr s" and "chunk_free s' = chunk_free s"
  shows "lists_of s' cs fs = lists_of s cs fs"
  using chain_cong_next [OF assms(1)] assms(2,3) by (simp add: lists_of_def)

lemma push_r_lists_of:
  assumes "lists_of s cs fs" and "push_r s = Inr (p, s')"
  shows "\<exists>cs' fs'. lists_of s' cs' fs'"
proof (cases "chunk_index s + 1 = chunk_elem_max s")
  case True
  show ?thesis
  proof (cases fs)
    case Nil
    with assms(1) have f: "chunk_free s = None" by (simp add: lists_of_def)
    have m: "elem_size s * chunk_elem_max s \<le> max_size"
    proof (rule ccontr)
      assume "\<not> elem_size s * chunk_elem_max s \<le> max_size"
      then have "push_r s = Inl LengthError"
        using push_r_fresh_fails [OF True f] by simp
      with assms(2) show False by simp
    qed
    from push_r_fresh [OF True f m] assms(2) f
    have "lists_of s' [length (heap s)] []"
      by (auto simp: lists_of_def)
    then show ?thesis by blast
  next
    case (Cons f fs')
    with assms(1) have f: "chunk_free s = Some f" "f < length (heap s)"
      and c: "chain (heap s) (next_chunk (heap s ! f)) fs'"
      by (simp_all add: lists_of_def)
    from assms(1) Cons have "distinct (f # fs')"
      using chain_distinct [of "heap s" "chunk_free s" "f # fs'"] by (simp add: lists_of_def)
    then have nf: "f \<notin> set fs'" by simp
    from push_r_recycled [OF True f] assms(2) f c nf
    have "lists_of s' [f] fs'"
      by (auto simp: lists_of_def chain_update_other)
    then show ?thesis by blast
  qed
next
  case False
  from push_r_no_alloc [OF False] assms(2)
  have "s' = s\<lparr>chunk_index := chunk_index s + 1, elem_num := elem_num s + 1\<rparr>"
    by (auto split: sum.splits)
  with assms(1) have "lists_of s' cs fs" by (simp add: lists_of_def)
  then show ?thesis by blast
qed

lemma push_lists_of:
  assumes "lists_of s cs fs" and "push s src = Inr s''"
  shows "\<exists>cs' fs'. lists_of s'' cs' fs'"
proof -
  from push_structure [OF assms(2)] obtain p s' where pr: "push_r s = Inr (p, s')"
    and e: "map next_chunk (heap s'') = map next_chunk (heap s')"
      "chunk_curr s'' = chunk_curr s'" "chunk_free s'' = chunk_free s'"
    by blast
  from push_r_lists_of [OF assms(1) pr] obtain cs' fs' where "lists_of s' cs' fs'" by blast
  then have "lists_of s'' cs' fs'" by (simp add: lists_of_cong [OF e])
  then show ?thesis by blast
qed

lemma discard_lists_of:
  assumes "lists_of s cs fs" and "discard s = Inr s'"
  shows "\<exists>cs' fs'. lists_of s' cs' fs'"
proof (cases "chunk_index s = 0")
  case True
  show ?thesis
  proof (cases cs)
    case Nil
    with assms(1) have "chunk_curr s = None" by (simp add: lists_of_def)
    with True assms(2) show ?thesis
      by (simp add: discard_def Let_def get_next_def)
  next
    case (Cons a cs')
    note h = lists_of_head [OF assms(1) [unfolded Cons]]
    let ?h = "(heap s)[a := (heap s ! a)\<lparr>next_chunk := chunk_free s\<rparr>]"
    from h have c1: "chain ?h (next_chunk (heap s ! a)) cs'"
      by (simp add: chain_update_other)
    from h have c2: "chain ?h (chunk_free s) fs"
      by (simp add: chain_update_other)
    from True h assms(2) have "s' = s\<lparr>chunk_index := chunk_elem_max s - 1,
             chunk_curr := next_chunk (heap s ! a),
             heap := ?h,
             chunk_free := Some a,
             elem_num := elem_num s - 1\<rparr>"
      by (simp add: discard_underflow)
    with h c1 c2 have "lists_of s' cs' (a # fs)"
      by (simp add: lists_of_def)
    then show ?thesis by blast
  qed
next
  case False
  with assms(2) have "s' = s\<lparr>chunk_index := chunk_index s - 1, elem_num := elem_num s - 1\<rparr>"
    by (simp add: discard_no_underflow)
  with assms(1) have "lists_of s' cs fs" by (simp add: lists_of_def)
  then show ?thesis by blast
qed

lemma step_lists_of:
  assumes "lists_of s cs fs" and "step s x = Some (Inr (out, s'))"
  shows "\<exists>cs' fs'. lists_of s' cs' fs'"
proof (cases x)
  case (Push src)
  with assms(2) have "push s src = Inr s'" by (auto split: sum.splits)
  from push_lists_of [OF assms(1) this] show ?thesis .
next
  case Pop
  with assms(2) have "discard s = Inr s'"
    by (auto simp: pop_def split: sum.splits)
  from discard_lists_of [OF assms(1) this] show ?thesis .
next
  case Peek
  with assms(2) have "s' = s" by (auto split: sum.splits)
  with assms(1) show ?thesis by blast
next
  case Discard
  with assms(2) have "discard s = Inr s'" by (auto split: sum.splits)
  from discard_lists_of [OF assms(1) this] show ?thesis .
next
  case Clear
  with assms(2) have "clear s = Some (Inr s')" by (auto split: option.splits sum.splits)
  with clear_returns [OF assms(1)] show ?thesis by auto
qed

lemma run_lists_of:
  "lists_of s cs fs \<Longrightarrow> run s ops = Some (Inr (outs, s')) \<Longrightarrow> \<exists>cs' fs'. lists_of s' cs' fs'"
proof (induction ops arbitrary: s cs fs outs)
  case Nil
  then show ?case by auto
next
  case (Cons x ops)
  from Cons.prems(2) obtain out s1 outs1 where
    st: "step s x = Some (Inr (out, s1))" and r: "run s1 ops = Some (Inr (outs1, s'))"
    by (auto split: option.splits sum.splits)
  from step_lists_of [OF Cons.prems(1) st] obtain cs1 fs1 where "lists_of s1 cs1 fs1" by blast
  from Cons.IH [OF this r] show ?case .
qed

lemma reachable_lists_of:
  assumes "run (BLI_stack_new_ex esize description chunk_size) ops = Some (Inr (outs, s))"
  shows "\<exists>cs fs. lists_of s cs fs"
proof -
  have "lists_of (BLI_stack_new_ex esize description chunk_size) [] []"
    by (simp add: lists_of_def BLI_stack_new_ex_def BLI_StackImpl_ctor_def)
  from run_lists_of [OF this assms] show ?thesis .
qed

section \<open>What does hold of pushes and pops\<close>

text \<open>
  A pop right after a push returns the bytes pushed, and a run of pushes and pops that
  is defined to its end leaves the count at the number of pushes minus the number of
  pops (in \<open>size_t\<close>).
\<close>

lemma push_r_result:
  assumes "push_r s = Inr (p, s')"
  shows "get_last_elem s' = Inr p \<and> elem_size s' = elem_size s \<and>
         elem_num s' = elem_num s + 1 \<and> chunk_elem_max s' = chunk_elem_max s"
proof (cases "chunk_index s + 1 = chunk_elem_max s")
  case True
  show ?thesis
  proof (cases "chunk_free s")
    case None
    have m: "elem_size s * chunk_elem_max s \<le> max_size"
    proof (rule ccontr)
      assume "\<not> elem_size s * chunk_elem_max s \<le> max_size"
      then have "push_r s = Inl LengthError"
        using push_r_fresh_fails [OF True None] by simp
      with assms show False by simp
    qed
    from push_r_fresh [OF True None m] assms show ?thesis
      by (auto simp: get_last_elem_def)
  next
    case (Some f)
    show ?thesis
    proof (cases "f < length (heap s)")
      case True
      from push_r_recycled [OF \<open>chunk_index s + 1 = chunk_elem_max s\<close> Some True] assms True
      show ?thesis by (auto simp: get_last_elem_def)
    next
      case False
      with Some \<open>chunk_index s + 1 = chunk_elem_max s\<close> assms show ?thesis
        by (simp add: push_r_def Let_def allocate_new_chunk_def get_next_def)
    qed
  qed
next
  case False
  from push_r_no_alloc [OF False] assms show ?thesis
    by (auto split: sum.splits)
qed

lemma discard_defined:
  assumes "chunk_curr s = Some a" and "a < length (heap s)"
  shows "\<exists>s'. discard s = Inr s' \<and> elem_num s' = elem_num s - 1"
proof (cases "chunk_index s = 0")
  case True
  from discard_underflow [OF True assms] show ?thesis by simp
next
  case False
  from discard_no_underflow [OF False] show ?thesis by simp
qed

lemma pop_after_push:
  assumes "push s src = Inr s1" and "length src = unat (elem_size s)"
  shows "\<exists>s2. pop s1 = Inr (src, s2) \<and> count s2 = count s"
proof -
  from assms(1) obtain p s' h where pr: "push_r s = Inr (p, s')"
    and m: "memcpy_to (heap s') p src (unat (elem_size s')) = Inr h"
    and s1: "s1 = s'\<lparr>heap := h\<rparr>"
    by (auto simp: push_def split: sum.splits)
  note r = push_r_result [OF pr]
  obtain a off where p: "p = (a, off)" by (cases p)
  let ?n = "unat (elem_size s)"
  let ?d = "data (heap s' ! a)"
  from m p r have a: "a < length (heap s')" and b: "off + ?n \<le> length ?d"
    and h: "h = (heap s')[a := (heap s' ! a)\<lparr>data :=
               take off ?d @ take ?n src @ drop (off + ?n) ?d\<rparr>]"
    by (auto simp: memcpy_to_def split: if_splits)
  from r p a have cu: "chunk_curr s' = Some a"
    by (auto simp: get_last_elem_def split: option.splits if_splits)
  from r p s1 h a have g: "get_last_elem s1 = Inr (a, off)"
    by (auto simp: get_last_elem_def split: option.splits if_splits)
  from b assms(2) have "take ?n (drop off (take off ?d @ take ?n src @ drop (off + ?n) ?d)) = src"
    by simp
  with h a b assms(2) have f: "memcpy_from (heap s1) (a, off) (unat (elem_size s1)) = Inr src"
    using r s1 by (simp add: memcpy_from_def)
  from cu a s1 h have "chunk_curr s1 = Some a" "a < length (heap s1)" by simp_all
  from discard_defined [OF this] obtain s2 where
    d: "discard s1 = Inr s2" "elem_num s2 = elem_num s1 - 1" by blast
  from d(2) s1 r have "count s2 = count s" by (simp add: count_def)
  with g f d(1) show ?thesis by (simp add: pop_def)
qed

lemma push_count: "push s src = Inr s' \<Longrightarrow> count s' = count s + 1"
  using push_structure [of s src s'] push_r_result [of s]
  by (auto simp: count_def)

lemma pop_count: "pop s = Inr (dst, s') \<Longrightarrow> count s' = count s - 1"
  by (auto simp: pop_def discard_def Let_def count_def split: sum.splits if_splits)

lemma count_after_run:
  "set ops \<subseteq> insert Pop (range Push) \<Longrightarrow> run s ops = Some (Inr (outs, s')) \<Longrightarrow>
   count s' = count s + of_nat (length (filter (\<lambda>x. x \<noteq> Pop) ops))
                      - of_nat (length (filter (\<lambda>x. x = Pop) ops))"
proof (induction ops arbitrary: s outs)
  case Nil
  then show ?case by simp
next
  case (Cons x ops)
  from Cons.prems(2) obtain out s1 outs1 where
    st: "step s x = Some (Inr (out, s1))" and r: "run s1 ops = Some (Inr (outs1, s'))"
    by (auto split: option.splits sum.splits)
  from Cons.prems(1) have sub: "set ops \<subseteq> insert Pop (range Push)" by simp
  note ih = Cons.IH [OF sub r]
  from Cons.prems(1) consider "x = Pop" | src where "x = Push src" by auto
  then show ?case
  proof cases
    case 1
    with st have "count s1 = count s - 1" by (auto split: sum.splits dest: pop_count)
    with ih 1 show ?thesis by simp
  next
    case 2
    with st have "count s1 = count s + 1" by (auto split: sum.splits dest: push_count)
    with ih 2 show ?thesis by simp
  qed
qed

section \<open>The claims\<close>

text \<open>
  Claim C1 fails on the code.  With chunks of 4 elements, push 1 to 5 and pop twice:
  the first pop returns 5, the second should return 4 but dereferences a null
  \<open>chunk_curr\<close>, because the push that started the second chunk cut the first chunk
  off the active list.  What remains true is lemma \<open>pop_after_push\<close>.
\<close>

theorem lifo_fails_across_chunks:
  "outputs (run (BLI_stack_new_ex 4 [] 4)
     [Push [1, 0, 0, 0], Push [2, 0, 0, 0], Push [3, 0, 0, 0], Push [4, 0, 0, 0],
      Push [5, 0, 0, 0], Pop]) = Some [[5, 0, 0, 0]] \<and>
   run (BLI_stack_new_ex 4 [] 4)
     [Push [1, 0, 0, 0], Push [2, 0, 0, 0], Push [3, 0, 0, 0], Push [4, 0, 0, 0],
      Push [5, 0, 0, 0], Pop, Pop] = Some (Inl NullDeref)"
  by code_simp

text \<open>
  Claim C2 fails on the code.  After four pushes the head chunk 0 is full; the fifth
  push makes the fresh chunk 1 current with a null \<open>next\<close> instead of linking it in
  front of chunk 0, which is then on neither list.
\<close>

theorem push_overflow_drops_previous_chunk:
  "final_state (run (BLI_stack_new_ex 4 [] 4)
     [Push [1, 0, 0, 0], Push [2, 0, 0, 0], Push [3, 0, 0, 0], Push [4, 0, 0, 0]]) =
   Some \<lparr>heap = [\<lparr>next_chunk = None,
                   data = [1, 0, 0, 0, 2, 0, 0, 0, 3, 0, 0, 0, 4, 0, 0, 0]\<rparr>],
         chunk_curr = Some 0, chunk_free = None, chunk_index = 3, chunk_elem_max = 4,
         elem_size = 4, elem_num = 4\<rparr> \<and>
   final_state (run (BLI_stack_new_ex 4 [] 4)
     [Push [1, 0, 0, 0], Push [2, 0, 0, 0], Push [3, 0, 0, 0], Push [4, 0, 0, 0],
      Push [5, 0, 0, 0]]) =
   Some \<lparr>heap = [\<lparr>next_chunk = None,
                   data = [1, 0, 0, 0, 2, 0, 0, 0, 3, 0, 0, 0, 4, 0, 0, 0]\<rparr>,
                 \<lparr>next_chunk = None,
                   data = [5, 0, 0, 0, 0, 0, 0, 0, 0, 0, 0, 0, 0, 0, 0, 0]\<rparr>],
         chunk_curr = Some 1, chunk_free = None, chunk_index = 0, chunk_elem_max = 4,
         elem_size = 4, elem_num = 5\<rparr>"
  by code_simp

text \<open>
  Claim C4 fails on the code.  After five pushes and four discards the stack is not
  empty (its count is 1), yet the next \<open>discard\<close> is undefined: the cursor wraps and
  \<open>chunk_curr\<close> is null.  Lemma \<open>discard_step\<close> is the claim on every stack that has
  a head chunk.
\<close>

theorem discard_undefined_on_nonempty:
  "map_option is_empty (final_state (run (BLI_stack_new_ex 4 [] 4)
     [Push [1, 0, 0, 0], Push [2, 0, 0, 0], Push [3, 0, 0, 0], Push [4, 0, 0, 0],
      Push [5, 0, 0, 0], Discard, Discard, Discard, Discard])) = Some False \<and>
   map_option count (final_state (run (BLI_stack_new_ex 4 [] 4)
     [Push [1, 0, 0, 0], Push [2, 0, 0, 0], Push [3, 0, 0, 0], Push [4, 0, 0, 0],
      Push [5, 0, 0, 0], Discard, Discard, Discard, Discard])) = Some 1 \<and>
   run (BLI_stack_new_ex 4 [] 4)
     [Push [1, 0, 0, 0], Push [2, 0, 0, 0], Push [3, 0, 0, 0], Push [4, 0, 0, 0],
      Push [5, 0, 0, 0], Discard, Discard, Discard, Discard, Discard] = Some (Inl NullDeref)"
  by code_simp

text \<open>
  Claim C6 fails on the code.  With chunks of 2 one-byte elements, three pushes and
  one pop leave the count at 2, but a second pop, on a stack that is not empty, is
  undefined, so there is no count 1 to read.  Lemma \<open>count_after_run\<close> is the claim
  for the runs that are defined to their end.
\<close>

theorem count_lost_after_chunk_boundary:
  "map_option count (final_state (run (BLI_stack_new_ex 1 [] 2)
     [Push [10], Push [20], Push [30], Pop])) = Some 2 \<and>
   run (BLI_stack_new_ex 1 [] 2) [Push [10], Push [20], Push [30], Pop, Pop] =
     Some (Inl NullDeref)"
  by code_simp

text \<open>
  Claim C7 does not hold.  After the six pushes and two pops \<open>peek\<close> is undefined
  (\<open>chunk_curr\<close> is null), and the chunk that takes the value 7 (chunk 1) was already
  the head of the free list before \<open>clear\<close> ran, when no chunk was active.
\<close>

theorem scenario_peek_undefined:
  "run (BLI_stack_new_ex 4 [] 4)
     [Push [1, 0, 0, 0], Push [2, 0, 0, 0], Push [3, 0, 0, 0], Push [4, 0, 0, 0],
      Push [5, 0, 0, 0], Push [6, 0, 0, 0], Pop, Pop, Peek] = Some (Inl NullDeref) \<and>
   map_option chunk_curr (final_state (run (BLI_stack_new_ex 4 [] 4)
     [Push [1, 0, 0, 0], Push [2, 0, 0, 0], Push [3, 0, 0, 0], Push [4, 0, 0, 0],
      Push [5, 0, 0, 0], Push [6, 0, 0, 0], Pop, Pop])) = Some None \<and>
   map_option chunk_free (final_state (run (BLI_stack_new_ex 4 [] 4)
     [Push [1, 0, 0, 0], Push [2, 0, 0, 0], Push [3, 0, 0, 0], Push [4, 0, 0, 0],
      Push [5, 0, 0, 0], Push [6, 0, 0, 0], Pop, Pop])) = Some (Some 1) \<and>
   map_option get_last_elem (final_state (run (BLI_stack_new_ex 4 [] 4)
     [Push [1, 0, 0, 0], Push [2, 0, 0, 0], Push [3, 0, 0, 0], Push [4, 0, 0, 0],
      Push [5, 0, 0, 0], Push [6, 0, 0, 0], Pop, Pop, Clear, Push [7, 0, 0, 0]])) =
     Some (Inr (1, 0))"
  by code_simp

text \<open>
  Claim C7 as amended, without the peek.  Pushing 1 to 6 gives count 6; two pops
  return 6 and then 5 and leave count 4; \<open>clear\<close> sets the count to 0; pushing 7 and
  8 gives count 2 and allocates nothing (the store still holds two chunks); the slot
  of 7 is the first slot of chunk 1, the chunk that held 5 and 6, which the second
  pop put at the head of the free list and which is still there after \<open>clear\<close>.
\<close>

theorem scenario:
  "map_option count (final_state (run (BLI_stack_new_ex 4 [] 4)
     [Push [1, 0, 0, 0], Push [2, 0, 0, 0], Push [3, 0, 0, 0], Push [4, 0, 0, 0],
      Push [5, 0, 0, 0], Push [6, 0, 0, 0]])) = Some 6 \<and>
   outputs (run (BLI_stack_new_ex 4 [] 4)
     [Push [1, 0, 0, 0], Push [2, 0, 0, 0], Push [3, 0, 0, 0], Push [4, 0, 0, 0],
      Push [5, 0, 0, 0], Push [6, 0, 0, 0], Pop, Pop]) = Some [[6, 0, 0, 0], [5, 0, 0, 0]] \<and>
   map_option count (final_state (run (BLI_stack_new_ex 4 [] 4)
     [Push [1, 0, 0, 0], Push [2, 0, 0, 0], Push [3, 0, 0, 0], Push [4, 0, 0, 0],
      Push [5, 0, 0, 0], Push [6, 0, 0, 0], Pop, Pop])) = Some 4 \<and>
   map_option chunk_curr (final_state (run (BLI_stack_new_ex 4 [] 4)
     [Push [1, 0, 0, 0], Push [2, 0, 0, 0], Push [3, 0, 0, 0], Push [4, 0, 0, 0],
      Push [5, 0, 0, 0], Push [6, 0, 0, 0], Pop])) = Some (Some 1) \<and>
   map_option chunk_free (final_state (run (BLI_stack_new_ex 4 [] 4)
     [Push [1, 0, 0, 0], Push [2, 0, 0, 0], Push [3, 0, 0, 0], Push [4, 0, 0, 0],
      Push [5, 0, 0, 0], Push [6, 0, 0, 0], Pop])) = Some None \<and>
   map_option chunk_free (final_state (run (BLI_stack_new_ex 4 [] 4)
     [Push [1, 0, 0, 0], Push [2, 0, 0, 0], Push [3, 0, 0, 0], Push [4, 0, 0, 0],
      Push [5, 0, 0, 0], Push [6, 0, 0, 0], Pop, Pop])) = Some (Some 1) \<and>
   map_option count (final_state (run (BLI_stack_new_ex 4 [] 4)
     [Push [1, 0, 0, 0], Push [2, 0, 0, 0], Push [3, 0, 0, 0], Push [4, 0, 0, 0],
      Push [5, 0, 0, 0], Push [6, 0, 0, 0], Pop, Pop, Clear])) = Some 0 \<and>
   map_option chunk_free (final_state (run (BLI_stack_new_ex 4 [] 4)
     [Push [1, 0, 0, 0], Push [2, 0, 0, 0], Push [3, 0, 0, 0], Push [4, 0, 0, 0],
      Push [5, 0, 0, 0], Push [6, 0, 0, 0], Pop, Pop, Clear])) = Some (Some 1) \<and>
   map_option get_last_elem (final_state (run (BLI_stack_new_ex 4 [] 4)
     [Push [1, 0, 0, 0], Push [2, 0, 0, 0], Push [3, 0, 0, 0], Push [4, 0, 0, 0],
      Push [5, 0, 0, 0], Push [6, 0, 0, 0], Pop, Pop, Clear, Push [7, 0, 0, 0]])) =
     Some (Inr (1, 0)) \<and>
   map_option (length \<circ> heap) (final_state (run (BLI_stack_new_ex 4 [] 4)
     [Push [1, 0, 0, 0], Push [2, 0, 0, 0], Push [3, 0, 0, 0], Push [4, 0, 0, 0],
      Push [5, 0, 0, 0], Push [6, 0, 0, 0], Pop, Pop, Clear, Push [7, 0, 0, 0],
      Push [8, 0, 0, 0]])) = Some 2 \<and>
   outputs (run (BLI_stack_new_ex 4 [] 4)
     [Push [1, 0, 0, 0], Push [2, 0, 0, 0], Push [3, 0, 0, 0], Push [4, 0, 0, 0],
      Push [5, 0, 0, 0], Push [6, 0, 0, 0], Pop, Pop, Clear, Push [7, 0, 0, 0], Peek,
      Push [8, 0, 0, 0], Peek]) =
     Some [[6, 0, 0, 0], [5, 0, 0, 0], [7, 0, 0, 0], [8, 0, 0, 0]] \<and>
   map_option count (final_state (run (BLI_stack_new_ex 4 [] 4)
     [Push [1, 0, 0, 0], Push [2, 0, 0, 0], Push [3, 0, 0, 0], Push [4, 0, 0, 0],
      Push [5, 0, 0, 0], Push [6, 0, 0, 0], Pop, Pop, Clear, Push [7, 0, 0, 0],
      Push [8, 0, 0, 0]])) = Some 2"
  by code_simp


text \<open>
  Claim C3 does not hold: construction checks nothing.  With \<open>elem_size = 0\<close> and
  \<open>chunk_size = 0\<close> it produces a container, whose cursor is \<open>SIZE_MAX\<close>.
\<close>

theorem construction_accepts_zero:
  "BLI_stack_new_ex 0 [] 0 =
     \<lparr>heap = [], chunk_curr = None, chunk_free = None,
      chunk_index = 18446744073709551615, chunk_elem_max = 0, elem_size = 0, elem_num = 0\<rparr>"
  by (simp add: BLI_stack_new_ex_def BLI_StackImpl_ctor_def)

text \<open>
  Claim C3 as amended.  Construction never fails: for every \<open>elem_size\<close> and every
  \<open>chunk_size\<close>, 0 included, it produces an empty container with both lists null,
  the two sizes stored as given and the cursor at \<open>chunk_size - 1\<close> (modulo \<open>2^64\<close>).
\<close>

theorem construction_never_fails:
  "heap (BLI_stack_new_ex esize description chunk_size) = [] \<and>
   chunk_curr (BLI_stack_new_ex esize description chunk_size) = None \<and>
   chunk_free (BLI_stack_new_ex esize description chunk_size) = None \<and>
   chunk_index (BLI_stack_new_ex esize description chunk_size) = chunk_size - 1 \<and>
   chunk_elem_max (BLI_stack_new_ex esize description chunk_size) = chunk_size \<and>
   elem_size (BLI_stack_new_ex esize description chunk_size) = esize \<and>
   count (BLI_stack_new_ex esize description chunk_size) = 0 \<and>
   is_empty (BLI_stack_new_ex esize description chunk_size)"
  by (simp add: BLI_stack_new_ex_def BLI_StackImpl_ctor_def count_def is_empty_def)


text \<open>
  Claim C8.  \<open>pop\<close> is the composite "copy \<open>elem_size\<close> bytes from \<open>peek()\<close>, then
  \<open>discard()\<close>": on every state, the non-empty ones included, both give the same
  bytes and the same resulting state, or are undefined in the same way.
\<close>

theorem pop_is_peek_copy_discard: "pop s = peek_copy_discard s"
  by (simp add: pop_def peek_copy_discard_def peek_def)


text \<open>
  Claim C9.  Take a push that finds the head chunk full (the incremented cursor equals
  \<open>chunk_elem_max\<close>), on a stack with well-formed lists, and that returns.  The chunk
  \<open>a\<close> it has made current, the head of the free list if there is one and a fresh
  chunk otherwise, has a null \<open>next\<close>: the active list is \<open>[a]\<close> alone, whatever it
  was before.  This holds after \<open>push_r\<close> and after every \<open>push\<close> that returns.
\<close>

theorem push_new_chunk_next_null:
  assumes "chunk_index s + 1 = chunk_elem_max s" and "lists_of s cs fs"
    and "push_r s = Inr (p, s')"
  shows "\<exists>a. p = (a, 0) \<and>
           a = (case fs of [] \<Rightarrow> length (heap s) | f # fs' \<Rightarrow> f) \<and>
           chunk_curr s' = Some a \<and> a < length (heap s') \<and>
           next_chunk (heap s' ! a) = None \<and>
           lists_of s' [a] (tl fs) \<and>
           chunk_index s' = 0 \<and> elem_num s' = elem_num s + 1 \<and>
           (\<forall>src s''. push s src = Inr s'' \<longrightarrow>
              chunk_curr s'' = Some a \<and> next_chunk (heap s'' ! a) = None \<and>
              lists_of s'' [a] (tl fs))"
proof -
  have push_part: "\<forall>src s''. push s src = Inr s'' \<longrightarrow>
      chunk_curr s'' = Some a \<and> next_chunk (heap s'' ! a) = None \<and> lists_of s'' [a] (tl fs)"
    if cu: "chunk_curr s' = Some a" and l: "lists_of s' [a] (tl fs)" for a
  proof (intro allI impI)
    fix src s''
    assume "push s src = Inr s''"
    from push_structure [OF this] assms(3)
    have e: "chunk_curr s'' = chunk_curr s'" "chunk_free s'' = chunk_free s'"
      "map next_chunk (heap s'') = map next_chunk (heap s')"
      by auto
    from e(3) have c: "chain (heap s'') q as = chain (heap s') q as" for q as
      by (rule chain_cong_next)
    from l have l'': "lists_of s'' [a] (tl fs)" by (simp only: lists_of_def c e)
    then have "next_chunk (heap s'' ! a) = None" by (simp add: lists_of_def)
    with cu e l'' show "chunk_curr s'' = Some a \<and> next_chunk (heap s'' ! a) = None \<and>
      lists_of s'' [a] (tl fs)" by simp
  qed
  show ?thesis
  proof (cases fs)
    case Nil
    with assms(2) have f: "chunk_free s = None" by (simp add: lists_of_def)
    have m: "elem_size s * chunk_elem_max s \<le> max_size"
    proof (rule ccontr)
      assume "\<not> elem_size s * chunk_elem_max s \<le> max_size"
      then have "push_r s = Inl LengthError"
        using push_r_fresh_fails [OF assms(1) f] by simp
      with assms(3) show False by simp
    qed
    from push_r_fresh [OF assms(1) f m] assms(3)
    have p: "p = (length (heap s), 0)"
      and s': "s' = s\<lparr>heap := heap s @
              [\<lparr>next_chunk = None,
                data = replicate (unat (elem_size s * chunk_elem_max s)) 0\<rparr>],
            chunk_curr := Some (length (heap s)),
            chunk_index := 0,
            elem_num := elem_num s + 1\<rparr>"
      by simp_all
    from s' Nil f have l: "lists_of s' [length (heap s)] (tl fs)"
      by (simp add: lists_of_def)
    from s' have cu: "chunk_curr s' = Some (length (heap s))" by simp
    from push_part [OF cu l] p s' l Nil show ?thesis
      by simp
  next
    case (Cons f fs')
    with assms(2) have f: "chunk_free s = Some f" "f < length (heap s)"
      and c: "chain (heap s) (next_chunk (heap s ! f)) fs'"
      by (simp_all add: lists_of_def)
    from assms(2) Cons have "distinct (f # fs')"
      using chain_distinct [of "heap s" "chunk_free s" "f # fs'"] by (simp add: lists_of_def)
    then have nf: "f \<notin> set fs'" by simp
    from push_r_recycled [OF assms(1) f] assms(3)
    have p: "p = (f, 0)"
      and s': "s' = s\<lparr>heap := (heap s)[f := (heap s ! f)\<lparr>next_chunk := None\<rparr>],
            chunk_curr := Some f,
            chunk_free := next_chunk (heap s ! f),
            chunk_index := 0,
            elem_num := elem_num s + 1\<rparr>"
      by simp_all
    from s' Cons f c nf have l: "lists_of s' [f] (tl fs)"
      by (simp add: lists_of_def chain_update_other)
    from s' have cu: "chunk_curr s' = Some f" by simp
    from push_part [OF cu l] p s' l Cons f show ?thesis
      by simp
  qed
qed

theorem push_new_chunk_next_null_witness:
  "final_state (run (BLI_stack_new_ex 4 [] 4) [Push [1, 0, 0, 0], Discard]) =
     Some freed_example \<and>
   chunk_index freed_example + 1 = chunk_elem_max freed_example \<and>
   lists_of freed_example [] [0] \<and>
   push_r freed_example =
     Inr ((0, 0), freed_example\<lparr>chunk_curr := Some 0, chunk_free := None,
                                  chunk_index := 0, elem_num := 1\<rparr>) \<and>
   next_chunk (heap (freed_example\<lparr>chunk_curr := Some 0, chunk_free := None,
                                    chunk_index := 0, elem_num := 1\<rparr>) ! 0) = None \<and>
   lists_of (freed_example\<lparr>chunk_curr := Some 0, chunk_free := None,
                             chunk_index := 0, elem_num := 1\<rparr>) [0] [] \<and>
   chunk_index (BLI_stack_new_ex 4 [] 4) + 1 = chunk_elem_max (BLI_stack_new_ex 4 [] 4) \<and>
   lists_of (BLI_stack_new_ex 4 [] 4) [] [] \<and>
   push_r (BLI_stack_new_ex 4 [] 4) = Inr ((0, 0), fresh_example) \<and>
   next_chunk (heap fresh_example ! 0) = None \<and>
   lists_of fresh_example [0] []"
proof -
  let ?t = "freed_example"
  let ?t' = "freed_example\<lparr>chunk_curr := Some 0, chunk_free := None,
                            chunk_index := 0, elem_num := 1\<rparr>"
  let ?n = "BLI_stack_new_ex 4 [] 4"
  have r: "final_state (run ?n [Push [1, 0, 0, 0], Discard]) = Some ?t"
    by code_simp
  have a: "chunk_index ?t + 1 = chunk_elem_max ?t" "lists_of ?t [] [0]"
    by (simp_all add: lists_of_def freed_example_def)
  have a3: "push_r ?t = Inr ((0, 0), ?t')"
    by code_simp
  have b: "chunk_index ?n + 1 = chunk_elem_max ?n" "lists_of ?n [] []"
    by (simp_all add: lists_of_def BLI_stack_new_ex_def BLI_StackImpl_ctor_def)
  have b3: "push_r ?n = Inr ((0, 0), fresh_example)"
    by code_simp
  from push_new_chunk_next_null [OF a a3]
  have "next_chunk (heap ?t' ! 0) = None \<and> lists_of ?t' [0] []"
    by auto
  moreover from push_new_chunk_next_null [OF b b3]
  have "next_chunk (heap fresh_example ! 0) = None \<and> lists_of fresh_example [0] []"
    by auto
  ultimately show ?thesis using r a a3 b b3 by blast
qed

text \<open>
  Claim C5.  On every stack whose two chunk lists are well formed (each ends in
  null, and no chunk is on both), \<open>clear\<close> returns; afterwards the free list is the
  old free list followed by the old active list, so the chunks freed before are
  kept in place and the active chunks are appended; \<open>chunk_curr\<close> is null,
  \<open>chunk_index\<close> is the sentinel \<open>chunk_elem_max - 1\<close> and the count is 0.  The
  already empty stack is the case \<open>cs = []\<close>.  The buffers are untouched.
\<close>

theorem clear_appends_active_to_free:
  assumes "lists_of s cs fs"
  shows "\<exists>s'. clear s = Some (Inr s') \<and>
           chain (heap s') (chunk_free s') (fs @ cs) \<and>
           chunk_curr s' = None \<and>
           chunk_index s' = chunk_elem_max s - 1 \<and>
           count s' = 0 \<and> is_empty s' \<and>
           chunk_elem_max s' = chunk_elem_max s \<and> elem_size s' = elem_size s \<and>
           map data (heap s') = map data (heap s)"
proof -
  from clear_returns [OF assms] obtain s' where
    "clear s = Some (Inr s')" "lists_of s' [] (fs @ cs)"
    "chunk_index s' = chunk_elem_max s - 1" "elem_num s' = 0"
    "chunk_elem_max s' = chunk_elem_max s" "elem_size s' = elem_size s"
    "map data (heap s') = map data (heap s)"
    by blast
  then show ?thesis by (auto simp: lists_of_def count_def is_empty_def)
qed

theorem clear_appends_active_to_free_witness:
  "lists_of linked_example [0] [1, 2] \<and>
   (\<exists>s'. clear linked_example = Some (Inr s') \<and>
      chain (heap s') (chunk_free s') [1, 2, 0] \<and>
      chunk_curr s' = None \<and> chunk_index s' = 3 \<and> count s' = 0 \<and> is_empty s') \<and>
   lists_of (BLI_stack_new_ex 4 [] 4) [] [] \<and>
   (\<exists>s'. clear (BLI_stack_new_ex 4 [] 4) = Some (Inr s') \<and>
      chain (heap s') (chunk_free s') [] \<and> count s' = 0)"
proof -
  have a: "lists_of linked_example [0] [1, 2]"
    by (simp add: lists_of_def linked_example_def)
  have b: "lists_of (BLI_stack_new_ex 4 [] 4) [] []"
    by (simp add: lists_of_def BLI_stack_new_ex_def BLI_StackImpl_ctor_def)
  have c: "chunk_elem_max linked_example - 1 = 3"
    by (simp add: linked_example_def)
  show ?thesis
    using a b c clear_appends_active_to_free [OF a] clear_appends_active_to_free [OF b]
    by auto
qed

text \<open>
  Claim C10.  \<open>clear\<close> is idempotent: on every stack with well-formed chunk lists the
  first call returns a state, and calling \<open>clear\<close> on that state returns the very
  same state (store, \<open>chunk_curr\<close>, \<open>chunk_free\<close>, \<open>chunk_index\<close>, \<open>elem_num\<close> and
  the two constants).  Lemma \<open>clear_twice_eq\<close> is the same fact for every state
  whatsoever, with the outcomes "undefined" and "never returns" included.
\<close>

theorem clear_idempotent:
  assumes "lists_of s cs fs"
  shows "\<exists>s'. clear s = Some (Inr s') \<and> clear_twice s = Some (Inr s')"
  using clear_returns [OF assms] by (auto simp: clear_twice_eq)

theorem clear_idempotent_witness:
  "lists_of linked_example [0] [1, 2] \<and>
   (\<exists>s'. clear linked_example = Some (Inr s') \<and> clear_twice linked_example = Some (Inr s'))"
proof -
  have a: "lists_of linked_example [0] [1, 2]"
    by (simp add: lists_of_def linked_example_def)
  show ?thesis using a clear_idempotent [OF a] by simp
qed

end
